theory Spec2Isabelle
  imports Main
begin

section \<open>The low level parser for .aff files (aff\_parser.cxx)\<close>

text \<open>
  The class \<open>aff_parser\<close> owns one \<open>unordered_map<string, vector<string>>\<close> called
  \<open>table\<close>. Its member functions are modelled by explicit state passing over a record
  with that one field. The standard library calls of \<open>parse\<close> (\<open>getline\<close>,
  \<open>ws\<close>, \<open>operator>>\<close>, \<open>peek\<close>, \<open>toupper\<close>) are modelled on an explicit
  input stream: the characters the stream will still deliver, what the underlying source
  does once they are used up, the three state bits of \<open>ios_base\<close> and the exception
  mask. What line 101 reads of the C library's current locale is a parameter of
  \<open>parse\<close>.
\<close>

subsection \<open>Characters and locales\<close>

text \<open>
  Every stream of the program is constructed under the classic global C++ locale (the
  program never calls \<open>locale::global\<close>), so the white space of \<open>ws\<close> and
  \<open>operator>>\<close> is that of the classic \<open>ctype<char>\<close> facet: space, \<open>\t\<close>, \<open>\n\<close>,
  \<open>\v\<close>, \<open>\f\<close>, \<open>\r\<close>. The lowercase letters of ASCII are \<open>a\<close> to \<open>z\<close>.
\<close>

definition newline :: char where
  "newline = CHR 0x0A"

definition isspace :: "char \<Rightarrow> bool" where
  "isspace c \<longleftrightarrow> c = CHR 0x20 \<or> c = CHR 0x09 \<or> c = CHR 0x0A \<or> c = CHR 0x0B \<or> c = CHR 0x0C \<or> c = CHR 0x0D"

definition islower :: "char \<Rightarrow> bool" where
  "islower c \<longleftrightarrow> (97::nat) \<le> of_char c \<and> of_char c \<le> (122::nat)"

text \<open>
  Line 101 calls \<open>toupper(int)\<close> of \<open><cctype>\<close>, which reads the table of the C
  library's current locale (\<open>LC_CTYPE\<close>, set by the host with \<open>setlocale\<close>). The table
  is not code of this repository, so it is a parameter: a \<open>c_locale\<close> is the locale as
  far as \<open>toupper\<close> reads it. Two tables of the C library are given. In the "C" locale,
  which is in effect as long as nobody calls \<open>setlocale\<close>, the letters \<open>a\<close> to \<open>z\<close>
  lose 32 and every other byte is left as it is. In an ISO-8859-1 locale the bytes
  \<open>0xE0\<close> to \<open>0xFE\<close> without \<open>0xF7\<close> lose 32 as well.
\<close>

record c_locale =
  toupper_table :: "char \<Rightarrow> char"

definition toupper :: "c_locale \<Rightarrow> char \<Rightarrow> char" where
  "toupper lc c = toupper_table lc c"

definition classic_locale :: c_locale where
  "classic_locale =
     \<lparr>toupper_table = (\<lambda>c. if islower c then char_of (of_char c - (32::nat)) else c)\<rparr>"

definition latin1_locale :: c_locale where
  "latin1_locale =
     \<lparr>toupper_table = (\<lambda>c.
        if islower c \<or>
           ((224::nat) \<le> of_char c \<and> of_char c \<le> (254::nat) \<and> of_char c \<noteq> (247::nat))
        then char_of (of_char c - (32::nat)) else c)\<rparr>"

subsection \<open>Input streams\<close>

datatype source_end = EndOfStream | ReadError

text \<open>
  An \<open>iostate\<close> is a set of the three bits; \<open>goodbit\<close> is the empty one. A stream
  has its state bits and its exception mask \<open>exceptions()\<close>, an \<open>iostate\<close>.
\<close>

record iostate =
  has_eofbit :: bool
  has_failbit :: bool
  has_badbit :: bool

definition goodbit :: iostate where
  "goodbit = \<lparr>has_eofbit = False, has_failbit = False, has_badbit = False\<rparr>"

record istream =
  pending :: string
  ending :: source_end
  eofbit :: bool
  failbit :: bool
  badbit :: bool
  exceptions :: iostate

text \<open>\<open>good()\<close>, \<open>fail()\<close> and \<open>eof()\<close> of \<open>basic_ios\<close>.\<close>

definition good :: "istream \<Rightarrow> bool" where
  "good s \<longleftrightarrow> \<not> eofbit s \<and> \<not> failbit s \<and> \<not> badbit s"

definition fail :: "istream \<Rightarrow> bool" where
  "fail s \<longleftrightarrow> failbit s \<or> badbit s"

definition eof :: "istream \<Rightarrow> bool" where
  "eof s \<longleftrightarrow> eofbit s"

text \<open>
  Exceptions. \<open>setstate\<close> throws \<open>ios_base::failure\<close> when a bit of the state it
  leaves is in the mask, and an input function that has caught an exception of the
  stream buffer and set \<open>badbit\<close> throws it again when \<open>badbit\<close> is in the mask. An
  input function that neither calls \<open>setstate\<close> nor catches anything was entered with
  a good stream and leaves it good. So a call of the input functions below is left by
  an exception exactly when \<open>throws\<close> holds of the stream it leaves. The functions
  return that stream; the caller looks at \<open>throws\<close>.
\<close>

definition throws :: "istream \<Rightarrow> bool" where
  "throws s \<longleftrightarrow>
     eofbit s \<and> has_eofbit (exceptions s) \<or>
     failbit s \<and> has_failbit (exceptions s) \<or>
     badbit s \<and> has_badbit (exceptions s)"

text \<open>
  What a read does when no character is pending: at the end of the sequence (or when the
  stream buffer reports a read error as the end of the sequence) the stream sets
  \<open>eofbit\<close>; when the stream buffer throws (a hard read error), the input function
  catches the exception and sets \<open>badbit\<close>.
\<close>

definition underflow :: "istream \<Rightarrow> istream" where
  "underflow s = (case ending s of
      EndOfStream \<Rightarrow> s\<lparr>eofbit := True\<rparr>
    | ReadError \<Rightarrow> s\<lparr>badbit := True\<rparr>)"

text \<open>
  \<open>stringstream ss(line)\<close>: a fresh stream over the characters of \<open>line\<close>, good and
  with the mask \<open>goodbit\<close> that \<open>basic_ios::init\<close> gives every new stream.
\<close>

definition stringstream :: "string \<Rightarrow> istream" where
  "stringstream str = \<lparr>pending = str, ending = EndOfStream,
     eofbit = False, failbit = False, badbit = False, exceptions = goodbit\<rparr>"

text \<open>
  \<open>getline(is, str)\<close>. A stream that is not good fails the sentry: \<open>failbit\<close> is set and
  \<open>str\<close> is left alone. Otherwise \<open>str\<close> is erased and characters are moved to it until
  the newline (extracted, not stored) or until none is left. When nothing at all was
  extracted \<open>failbit\<close> is set. \<open>getline_chars\<close> returns the line, the characters left
  and whether the end of the pending characters was reached.
\<close>

fun getline_chars :: "string \<Rightarrow> string \<times> string \<times> bool" where
  "getline_chars [] = ([], [], True)"
| "getline_chars (c # cs) =
     (if c = newline then ([], cs, False)
      else (case getline_chars cs of (l, r, e) \<Rightarrow> (c # l, r, e)))"

definition getline :: "istream \<Rightarrow> string \<Rightarrow> istream \<times> string" where
  "getline s str =
     (if \<not> good s then (s\<lparr>failbit := True\<rparr>, str)
      else (case getline_chars (pending s) of (l, r, e) \<Rightarrow>
        let s1 = s\<lparr>pending := r\<rparr>;
            s2 = (if e then underflow s1 else s1);
            s3 = (if pending s = [] then s2\<lparr>failbit := True\<rparr> else s2)
        in (s3, l)))"

text \<open>
  \<open>is >> ws\<close>: discards white space; sets \<open>eofbit\<close> (not \<open>failbit\<close>) when it stops
  because nothing is left. On a stream that is not good its sentry sets \<open>failbit\<close>.
\<close>

fun ws_chars :: "string \<Rightarrow> string \<times> bool" where
  "ws_chars [] = ([], True)"
| "ws_chars (c # cs) = (if isspace c then ws_chars cs else (c # cs, False))"

definition ws :: "istream \<Rightarrow> istream" where
  "ws s =
     (if \<not> good s then s\<lparr>failbit := True\<rparr>
      else (case ws_chars (pending s) of (r, e) \<Rightarrow>
        let s1 = s\<lparr>pending := r\<rparr> in if e then underflow s1 else s1))"

text \<open>
  \<open>is.peek()\<close>: the next character, not extracted; \<open>None\<close> stands for
  \<open>traits::eof()\<close>.
\<close>

definition peek :: "istream \<Rightarrow> istream \<times> char option" where
  "peek s =
     (if \<not> good s then (s\<lparr>failbit := True\<rparr>, None)
      else (case pending s of
          [] \<Rightarrow> (underflow s, None)
        | c # cs \<Rightarrow> (s, Some c)))"

text \<open>
  \<open>is >> str\<close> for a string: the sentry skips leading white space (\<open>skipws\<close> is set by
  default) and sets \<open>failbit\<close> with \<open>eofbit\<close> when it finds the end; then \<open>str\<close> is
  erased and characters are moved to it up to the next white space or the end. When no
  character was stored \<open>failbit\<close> is set.
\<close>

fun token_chars :: "string \<Rightarrow> string \<times> string \<times> bool" where
  "token_chars [] = ([], [], True)"
| "token_chars (c # cs) =
     (if isspace c then ([], c # cs, False)
      else (case token_chars cs of (t, r, e) \<Rightarrow> (c # t, r, e)))"

definition extract_string :: "istream \<Rightarrow> string \<Rightarrow> istream \<times> string" where
  "extract_string s str =
     (if \<not> good s then (s\<lparr>failbit := True\<rparr>, str)
      else (case ws_chars (pending s) of (r0, e0) \<Rightarrow>
        if e0 then ((underflow (s\<lparr>pending := r0\<rparr>))\<lparr>failbit := True\<rparr>, str)
        else (case token_chars r0 of (t, r, e) \<Rightarrow>
          let s1 = s\<lparr>pending := r\<rparr>;
              s2 = (if e then underflow s1 else s1);
              s3 = (if t = [] then s2\<lparr>failbit := True\<rparr> else s2)
          in (s3, t))))"

subsection \<open>The table\<close>

type_synonym table_t = "string \<rightharpoonup> string list"

record aff_parser =
  table :: table_t

text \<open>
  \<open>table[command]\<close> inserts an empty vector when the key is new and returns (a
  reference to) the vector of the key; \<open>table.count\<close> and \<open>table.find\<close> only read.
  \<open>vec.push_back\<close> appends to a vector; through the reference it is a write to the
  table at the key.
\<close>

definition umap_index :: "table_t \<Rightarrow> string \<Rightarrow> table_t \<times> string list" where
  "umap_index m k = (case m k of None \<Rightarrow> (m(k \<mapsto> []), []) | Some v \<Rightarrow> (m, v))"

definition umap_count :: "table_t \<Rightarrow> string \<Rightarrow> nat" where
  "umap_count m k = (case m k of None \<Rightarrow> 0 | Some v \<Rightarrow> 1)"

definition push_back :: "string list \<Rightarrow> string \<Rightarrow> string list" where
  "push_back vec x = vec @ [x]"

definition empty_vec :: "string list" where
  "empty_vec = []"

subsection \<open>The member functions\<close>

text \<open>The implicit default constructor: an empty \<open>unordered_map\<close>.\<close>

definition new_parser :: aff_parser where
  "new_parser = \<lparr>table = Map.empty\<rparr>"

definition clear :: "aff_parser \<Rightarrow> aff_parser" where
  "clear p = p\<lparr>table := Map.empty\<rparr>"

text \<open>
  Lines 95 to 108: the body of the loop after the read of \<open>line\<close>. The locals
  \<open>command\<close> and \<open>parametar_line\<close> are declared outside the loop, so they are passed
  in and returned. The stream \<open>ss\<close> is made here with the mask \<open>goodbit\<close> and nothing
  changes its mask, so no call on it throws (lemma \<open>parse_line_never_throws\<close> below
  shows \<open>throws\<close> false after each of them).
\<close>

definition parse_line ::
  "c_locale \<Rightarrow> aff_parser \<Rightarrow> string \<Rightarrow> string \<Rightarrow> string \<Rightarrow>
     aff_parser \<times> string \<times> string" where
  "parse_line lc p line command parametar_line =
     (let ss = ws (stringstream line) in
      if eof ss then (p, command, parametar_line)
      else (case peek ss of (ss1, nxt) \<Rightarrow>
        if nxt = Some CHR ''#'' then (p, command, parametar_line)
        else (case extract_string ss1 command of (ss2, command1) \<Rightarrow>
          let command2 = map (toupper lc) command1 in
          (case umap_index (table p) command2 of (table1, vec) \<Rightarrow>
            let p1 = p\<lparr>table := table1\<rparr>;
                ss3 = ws ss2
            in if eof ss3 then (p1, command2, parametar_line)
               else (case getline ss3 parametar_line of (ss4, parametar_line1) \<Rightarrow>
                 (p1\<lparr>table := table1(command2 \<mapsto> push_back vec parametar_line1)\<rparr>,
                  command2, parametar_line1))))))"

text \<open>
  How a call of \<open>parse\<close> ends: it returns its flag, or an exception of
  \<open>getline(in, line)\<close> leaves it. \<open>parse\<close> has no handler, so the exception leaves
  the parser as the lines read so far have made it.
\<close>

datatype outcome = Returned bool | Thrown

text \<open>
  The \<open>do ... while (!in.eof())\<close> loop of \<open>parse\<close>; \<open>continue\<close> goes to the loop
  condition. The result is how the call ends, the parser and the stream afterwards.
\<close>

function parse_loop ::
  "c_locale \<Rightarrow> aff_parser \<Rightarrow> istream \<Rightarrow> string \<Rightarrow> string \<Rightarrow> string \<Rightarrow>
     outcome \<times> aff_parser \<times> istream" where
  "parse_loop lc p s line command parametar_line =
     (case getline s line of (s1, line1) \<Rightarrow>
        if throws s1 then (Thrown, p, s1)
        else if fail s1 \<and> \<not> eof s1 then (Returned False, clear p, s1)
        else (case parse_line lc p line1 command parametar_line of
          (p1, command1, parametar_line1) \<Rightarrow>
            if \<not> eof s1 then parse_loop lc p1 s1 line1 command1 parametar_line1
            else (Returned True, p1, s1)))"
  by pat_completeness auto

lemma getline_chars_length:
  "getline_chars cs = (l, r, e) \<Longrightarrow> cs \<noteq> [] \<Longrightarrow> length r < length cs"
proof (induction cs arbitrary: l r e)
  case Nil
  then show ?case by simp
next
  case (Cons c cs)
  show ?case
  proof (cases "c = newline")
    case True
    with Cons.prems show ?thesis by simp
  next
    case False
    obtain l' r' e' where g: "getline_chars cs = (l', r', e')"
      by (cases "getline_chars cs") auto
    with False Cons.prems have r: "r = r'" by simp
    show ?thesis
    proof (cases "cs = []")
      case True
      with g r show ?thesis by simp
    next
      case False
      with Cons.IH [OF g] r show ?thesis by simp
    qed
  qed
qed

lemma getline_consumes:
  assumes "getline s line = (s1, line1)" and "\<not> fail s1"
  shows "length (pending s1) < length (pending s)"
proof -
  have g: "good s"
    using assms by (auto simp: getline_def fail_def split: if_splits)
  obtain l r e where c: "getline_chars (pending s) = (l, r, e)"
    by (cases "getline_chars (pending s)") auto
  have ne: "pending s \<noteq> []"
    using assms g c by (auto simp: getline_def fail_def Let_def split: if_splits)
  have "pending s1 = r"
    using assms(1) g c ne
    by (auto simp: getline_def Let_def underflow_def split: if_splits source_end.splits)
  with getline_chars_length [OF c ne] show ?thesis by simp
qed

termination parse_loop
  by (relation "measure (\<lambda>(lc, p, s, line, command, parametar_line). length (pending s))")
    (auto dest: getline_consumes [OF sym])

declare parse_loop.simps [simp del]

definition parse ::
  "c_locale \<Rightarrow> aff_parser \<Rightarrow> istream \<Rightarrow> outcome \<times> aff_parser \<times> istream" where
  "parse lc p s = parse_loop lc p s [] [] []"

text \<open>The queries return their result and the parser, which they only read.\<close>

definition is_command_present :: "aff_parser \<Rightarrow> string \<Rightarrow> bool \<times> aff_parser" where
  "is_command_present p command = (umap_count (table p) command \<noteq> 0, p)"

definition get_command_parametars :: "aff_parser \<Rightarrow> string \<Rightarrow> string list \<times> aff_parser" where
  "get_command_parametars p command =
     (case table p command of
        Some v \<Rightarrow> (v, p)
      | None \<Rightarrow> (empty_vec, p))"

definition data :: "aff_parser \<Rightarrow> table_t \<times> aff_parser" where
  "data p = (table p, p)"

section \<open>Specification-level notions\<close>

text \<open>
  The terms of the specification, defined from its words and independently of the
  stream functions above. A line is significant when, after its leading white space, it
  is neither empty nor starts with \<open>#\<close>. The directive token is the maximal run of
  characters that are not white space after the leading white space; the key is the
  token in uppercase; the parameter text is what follows the token and the white space
  after it, up to the end of the line.
\<close>

definition significant :: "string \<Rightarrow> bool" where
  "significant line =
     (case dropWhile isspace line of [] \<Rightarrow> False | c # cs \<Rightarrow> c \<noteq> CHR ''#'')"

definition directive_token :: "string \<Rightarrow> string" where
  "directive_token line = takeWhile (\<lambda>c. \<not> isspace c) (dropWhile isspace line)"

definition directive_key :: "c_locale \<Rightarrow> string \<Rightarrow> string" where
  "directive_key lc line = map (toupper lc) (directive_token line)"

definition parameter_text :: "string \<Rightarrow> string" where
  "parameter_text line =
     dropWhile isspace (dropWhile (\<lambda>c. \<not> isspace c) (dropWhile isspace line))"

text \<open>
  The lines of an input are its pieces between the newlines (an input that ends with a
  newline has an empty last line); \<open>join_lines\<close> puts them together again.
\<close>

fun split_lines :: "string \<Rightarrow> string list" where
  "split_lines [] = [[]]"
| "split_lines (c # cs) =
     (if c = newline then [] # split_lines cs
      else (case split_lines cs of [] \<Rightarrow> [[c]] | l # ls \<Rightarrow> (c # l) # ls))"

fun join_lines :: "string list \<Rightarrow> string" where
  "join_lines [] = []"
| "join_lines [l] = l"
| "join_lines (l # ls) = l @ newline # join_lines ls"

text \<open>
  The occurrences of a key with parameter text among the lines, in file order; the
  parameter lines a table holds for a key (none for an absent key); and a key as the
  specification wants it: a non-empty token with every character uppercased.
\<close>

definition occurrences :: "c_locale \<Rightarrow> string \<Rightarrow> string list \<Rightarrow> string list" where
  "occurrences lc k ls =
     filter (\<lambda>l. significant l \<and> directive_key lc l = k \<and> parameter_text l \<noteq> []) ls"

definition stored :: "table_t \<Rightarrow> string \<Rightarrow> string list" where
  "stored m k = (case m k of None \<Rightarrow> [] | Some v \<Rightarrow> v)"


text \<open>What one line does to the table, in these terms.\<close>

definition index_line :: "c_locale \<Rightarrow> table_t \<Rightarrow> string \<Rightarrow> table_t" where
  "index_line lc m line =
     (if \<not> significant line then m
      else m(directive_key lc line \<mapsto> stored m (directive_key lc line) @
        (if parameter_text line = [] then []
         else [takeWhile (\<lambda>c. c \<noteq> newline) (parameter_text line)])))"



section \<open>The code against the specification-level notions\<close>

lemma ws_chars_eq: "ws_chars cs = (dropWhile isspace cs, dropWhile isspace cs = [])"
  by (induction cs) auto

lemma token_chars_eq:
  "token_chars cs = (takeWhile (\<lambda>c. \<not> isspace c) cs, dropWhile (\<lambda>c. \<not> isspace c) cs,
     dropWhile (\<lambda>c. \<not> isspace c) cs = [])"
  by (induction cs) auto

lemma getline_chars_eq:
  "getline_chars cs = (takeWhile (\<lambda>c. c \<noteq> newline) cs, tl (dropWhile (\<lambda>c. c \<noteq> newline) cs),
     newline \<notin> set cs)"
  by (induction cs) auto

lemma ws_stringstream:
  "ws (stringstream line) = \<lparr>pending = dropWhile isspace line, ending = EndOfStream,
     eofbit = (dropWhile isspace line = []), failbit = False, badbit = False,
     exceptions = goodbit\<rparr>"
  by (simp add: ws_def stringstream_def good_def ws_chars_eq underflow_def Let_def)

lemma parse_line_insignificant:
  assumes "\<not> significant line"
  shows "parse_line lc p line command parametar_line = (p, command, parametar_line)"
proof (cases "dropWhile isspace line")
  case Nil
  then show ?thesis
    by (simp add: parse_line_def ws_stringstream eof_def)
next
  case (Cons c cs)
  with assms have "c = CHR ''#''"
    by (simp add: significant_def)
  with Cons show ?thesis
    by (simp add: parse_line_def ws_stringstream eof_def peek_def good_def)
qed

lemma parse_line_significant:
  assumes "significant line"
  shows "parse_line lc p line command parametar_line =
    (let k = map (toupper lc) (directive_token line)
     in if parameter_text line = []
        then (p\<lparr>table := (table p)(k \<mapsto> stored (table p) k)\<rparr>, k, parametar_line)
        else (p\<lparr>table := (table p)(k \<mapsto> stored (table p) k @
                 [takeWhile (\<lambda>c. c \<noteq> newline) (parameter_text line)])\<rparr>,
              k, takeWhile (\<lambda>c. c \<noteq> newline) (parameter_text line)))"
proof -
  obtain c cs where d: "dropWhile isspace line = c # cs" and c: "c \<noteq> CHR ''#''"
    using assms by (auto simp: significant_def split: list.splits)
  have nsp: "\<not> isspace c"
    using d by (metis dropWhile_eq_Cons_conv)
  define t where "t = directive_token line"
  define r where "r = dropWhile (\<lambda>c. \<not> isspace c) (dropWhile isspace line)"
  define q where "q = parameter_text line"
  have q: "q = dropWhile isspace r"
    by (simp add: q_def r_def parameter_text_def)
  define s0 where "s0 = ws (stringstream line)"
  have s0: "s0 = \<lparr>pending = c # cs, ending = EndOfStream, eofbit = False, failbit = False,
      badbit = False, exceptions = goodbit\<rparr>"
    by (simp add: s0_def ws_stringstream d)
  have e0: "\<not> eof s0"
    by (simp add: s0 eof_def)
  have pk: "peek s0 = (s0, Some c)"
    by (simp add: s0 peek_def good_def)
  define s2 where "s2 = \<lparr>pending = r, ending = EndOfStream, eofbit = (r = []),
      failbit = False, badbit = False, exceptions = goodbit\<rparr>"
  have tr: "takeWhile (\<lambda>c. \<not> isspace c) (c # cs) = t" "dropWhile (\<lambda>c. \<not> isspace c) (c # cs) = r"
    by (simp_all only: t_def r_def directive_token_def d)
  have tne: "t \<noteq> []"
    using tr(1) nsp by auto
  have ex: "extract_string s0 command = (s2, t)"
    using nsp tne
    by (simp add: s0 s2_def extract_string_def good_def token_chars_eq tr underflow_def Let_def
        del: takeWhile.simps dropWhile.simps)
  have w2: "eof (ws s2) \<longleftrightarrow> q = []"
    by (auto simp add: s2_def ws_def good_def eof_def ws_chars_eq q underflow_def Let_def)
  have gl: "q \<noteq> [] \<Longrightarrow> snd (getline (ws s2) parametar_line) = takeWhile (\<lambda>c. c \<noteq> newline) q"
    by (auto simp add: s2_def ws_def good_def eof_def ws_chars_eq q underflow_def Let_def
        getline_def getline_chars_eq)
  show ?thesis
    unfolding parse_line_def s0_def [symmetric] t_def [symmetric] q_def [symmetric]
    using e0 c w2 gl
    by (auto simp add: pk ex Let_def umap_index_def push_back_def stored_def fun_upd_idem
        split: prod.splits option.splits)
qed

lemma parse_line_table:
  "table (fst (parse_line lc p line command parametar_line)) = index_line lc (table p) line"
  by (cases "significant line")
    (simp_all add: parse_line_insignificant parse_line_significant index_line_def
      directive_key_def Let_def)

lemma split_lines_nonempty: "split_lines cs \<noteq> []"
  by (induction cs) (auto split: list.splits)

lemma join_split_lines: "join_lines (split_lines cs) = cs"
proof (induction cs)
  case Nil
  show ?case by simp
next
  case (Cons c cs)
  obtain l ls where s: "split_lines cs = l # ls"
    using split_lines_nonempty [of cs] by (cases "split_lines cs") auto
  with Cons show ?case
    by (cases ls) auto
qed

lemma split_lines_no_newline: "l \<in> set (split_lines cs) \<Longrightarrow> newline \<notin> set l"
  by (induction cs arbitrary: l) (auto split: if_splits list.splits)

lemma split_lines_getline:
  "split_lines cs = (case getline_chars cs of (l, r, e) \<Rightarrow> if e then [l] else l # split_lines r)"
proof (induction cs)
  case Nil
  show ?case by simp
next
  case (Cons c cs)
  obtain l r e where g: "getline_chars cs = (l, r, e)"
    by (cases "getline_chars cs") auto
  with Cons show ?case
    by (auto split: list.splits)
qed

lemma getline_good:
  assumes "good s"
  shows "getline s str =
    (case getline_chars (pending s) of (l, r, e) \<Rightarrow>
       (\<lparr>pending = r, ending = ending s,
         eofbit = (e \<and> ending s = EndOfStream),
         failbit = (pending s = []),
         badbit = (e \<and> ending s = ReadError),
         exceptions = exceptions s\<rparr>, l))"
  using assms
  by (cases s; cases "ending s")
    (auto simp: getline_def good_def underflow_def Let_def split: prod.splits)

lemma getline_chars_end: "getline_chars [] = (l, r, e) \<Longrightarrow> e"
  by simp

lemma default_mask_never_throws: "exceptions s = goodbit \<Longrightarrow> \<not> throws s"
  by (simp add: throws_def goodbit_def)

lemma exceptions_unchanged:
  "exceptions (underflow s) = exceptions s"
  "exceptions (ws s) = exceptions s"
  "exceptions (fst (peek s)) = exceptions s"
  "exceptions (fst (extract_string s str)) = exceptions s"
  "exceptions (fst (getline s str)) = exceptions s"
  by (auto simp: underflow_def ws_def peek_def extract_string_def getline_def Let_def
      split: source_end.splits prod.splits list.splits)

lemma parse_line_never_throws:
  "\<not> throws (ws (stringstream line))"
  "\<not> throws (fst (peek (ws (stringstream line))))"
  "\<not> throws (fst (extract_string (fst (peek (ws (stringstream line)))) command))"
  "\<not> throws (ws (fst (extract_string (fst (peek (ws (stringstream line)))) command)))"
  "\<not> throws (fst (getline
     (ws (fst (extract_string (fst (peek (ws (stringstream line)))) command))) parametar_line))"
  by (rule default_mask_never_throws, simp add: exceptions_unchanged stringstream_def)+

lemma parse_loop_end_of_stream:
  assumes "good s" and "ending s = EndOfStream" and "exceptions s = goodbit"
  shows "fst (parse_loop lc p s line command parametar_line) = Returned True \<and>
    table (fst (snd (parse_loop lc p s line command parametar_line))) =
      foldl (index_line lc) (table p) (split_lines (pending s))"
  using assms
proof (induction lc p s line command parametar_line rule: parse_loop.induct)
  case (1 lc p s line command parametar_line)
  obtain l r e where g: "getline_chars (pending s) = (l, r, e)"
    by (cases "getline_chars (pending s)") auto
  define s1 where "s1 = \<lparr>pending = r, ending = EndOfStream, eofbit = e,
      failbit = (pending s = []), badbit = False, exceptions = goodbit\<rparr>"
  have gl: "getline s line = (s1, l)"
    using "1.prems" g by (simp add: getline_good s1_def)
  have nt: "\<not> throws s1"
    by (rule default_mask_never_throws) (simp add: s1_def)
  have pe: "pending s = [] \<Longrightarrow> e"
    using g by auto
  have nf: "\<not> (fail s1 \<and> \<not> eof s1)"
    using pe by (auto simp: s1_def fail_def eof_def)
  obtain p1 command1 parametar_line1 where
    pl: "parse_line lc p l command parametar_line = (p1, command1, parametar_line1)"
    by (cases "parse_line lc p l command parametar_line") auto
  have t1: "table p1 = index_line lc (table p) l"
    using parse_line_table [of lc p l command parametar_line] pl by simp
  show ?case
  proof (cases e)
    case True
    then have "eof s1" by (simp add: s1_def eof_def)
    with nt nf gl pl t1 g True show ?thesis
      by (subst (1 2) parse_loop.simps) (simp add: split_lines_getline)
  next
    case False
    then have ne: "\<not> eof s1" by (simp add: s1_def eof_def)
    have gs: "good s1" "ending s1 = EndOfStream" "exceptions s1 = goodbit"
      using False pe by (auto simp: s1_def good_def)
    have ih: "fst (parse_loop lc p1 s1 l command1 parametar_line1) = Returned True \<and>
      table (fst (snd (parse_loop lc p1 s1 l command1 parametar_line1))) =
        foldl (index_line lc) (table p1) (split_lines (pending s1))"
      using "1.IH" [OF gl [symmetric] nt nf pl [symmetric] refl ne gs] .
    have "parse_loop lc p s line command parametar_line =
        parse_loop lc p1 s1 l command1 parametar_line1"
      using gl nt nf pl ne by (subst parse_loop.simps) simp
    with ih t1 g False show ?thesis
      by (simp add: split_lines_getline [of "pending s"] s1_def)
  qed
qed

lemma parse_loop_end_of_stream_any_mask:
  assumes "good s" and "ending s = EndOfStream"
  shows "fst (parse_loop lc p s line command parametar_line) \<noteq> Returned False \<and>
    (\<exists>n. table (fst (snd (parse_loop lc p s line command parametar_line))) =
      foldl (index_line lc) (table p) (take n (split_lines (pending s))))"
  using assms
proof (induction lc p s line command parametar_line rule: parse_loop.induct)
  case (1 lc p s line command parametar_line)
  obtain l r e where g: "getline_chars (pending s) = (l, r, e)"
    by (cases "getline_chars (pending s)") auto
  define s1 where "s1 = \<lparr>pending = r, ending = EndOfStream, eofbit = e,
      failbit = (pending s = []), badbit = False, exceptions = exceptions s\<rparr>"
  have gl: "getline s line = (s1, l)"
    using "1.prems" g by (simp add: getline_good s1_def)
  have pe: "pending s = [] \<Longrightarrow> e"
    using g by auto
  have nf: "\<not> (fail s1 \<and> \<not> eof s1)"
    using pe by (auto simp: s1_def fail_def eof_def)
  obtain p1 command1 parametar_line1 where
    pl: "parse_line lc p l command parametar_line = (p1, command1, parametar_line1)"
    by (cases "parse_line lc p l command parametar_line") auto
  have t1: "table p1 = index_line lc (table p) l"
    using parse_line_table [of lc p l command parametar_line] pl by simp
  show ?case
  proof (cases "throws s1")
    case True
    with gl have "parse_loop lc p s line command parametar_line = (Thrown, p, s1)"
      by (subst parse_loop.simps) simp
    moreover have "table p = foldl (index_line lc) (table p) (take 0 (split_lines (pending s)))"
      by simp
    ultimately show ?thesis
      by (metis fst_conv snd_conv outcome.distinct(1))
  next
    case nt: False
    show ?thesis
    proof (cases e)
      case True
      then have "eof s1" by (simp add: s1_def eof_def)
      with nt nf gl pl have "parse_loop lc p s line command parametar_line = (Returned True, p1, s1)"
        by (subst parse_loop.simps) simp
      moreover have "table p1 = foldl (index_line lc) (table p) (take 1 (split_lines (pending s)))"
        using t1 g True by (simp add: split_lines_getline [of "pending s"])
      ultimately show ?thesis
        by (metis fst_conv snd_conv outcome.inject)
    next
      case False
      then have ne: "\<not> eof s1" by (simp add: s1_def eof_def)
      have gs: "good s1" "ending s1 = EndOfStream"
        using False pe by (auto simp: s1_def good_def)
      have eq: "parse_loop lc p s line command parametar_line =
          parse_loop lc p1 s1 l command1 parametar_line1"
        using gl nt nf pl ne by (subst parse_loop.simps) simp
      from "1.IH" [OF gl [symmetric] nt nf pl [symmetric] refl ne gs]
      obtain n where ih: "fst (parse_loop lc p1 s1 l command1 parametar_line1) \<noteq> Returned False"
        "table (fst (snd (parse_loop lc p1 s1 l command1 parametar_line1))) =
          foldl (index_line lc) (table p1) (take n (split_lines (pending s1)))"
        by blast
      have "split_lines (pending s) = l # split_lines (pending s1)"
        using g False by (simp add: split_lines_getline [of "pending s"] s1_def)
      then have "foldl (index_line lc) (table p1) (take n (split_lines (pending s1))) =
          foldl (index_line lc) (table p) (take (Suc n) (split_lines (pending s)))"
        by (simp add: t1)
      with ih eq show ?thesis
        by metis
    qed
  qed
qed

lemma parse_loop_sentry_fails:
  assumes "\<not> good s" and "\<not> eofbit s"
  shows "parse_loop lc p s line command parametar_line =
    (if throws (s\<lparr>failbit := True\<rparr>) then (Thrown, p, s\<lparr>failbit := True\<rparr>)
     else (Returned False, clear p, s\<lparr>failbit := True\<rparr>))"
  using assms
  by (subst parse_loop.simps) (simp add: getline_def fail_def eof_def)

lemma parse_loop_at_eof:
  assumes "eofbit s"
  shows "parse_loop lc p s line command parametar_line =
    (if throws (s\<lparr>failbit := True\<rparr>) then (Thrown, p, s\<lparr>failbit := True\<rparr>)
     else (Returned True, fst (parse_line lc p line command parametar_line),
           s\<lparr>failbit := True\<rparr>))"
  using assms
  by (subst parse_loop.simps)
    (simp add: getline_def good_def fail_def eof_def split: prod.splits)

lemma parse_line_clear:
  "clear (fst (parse_line lc p line command parametar_line)) = clear p"
  by (cases "significant line")
    (auto simp: parse_line_insignificant parse_line_significant clear_def Let_def)

lemma parse_loop_read_error:
  assumes "good s" and "ending s = ReadError" and "exceptions s = goodbit"
  shows "fst (parse_loop lc p s line command parametar_line) = Returned False \<and>
    fst (snd (parse_loop lc p s line command parametar_line)) = clear p"
  using assms
proof (induction lc p s line command parametar_line rule: parse_loop.induct)
  case (1 lc p s line command parametar_line)
  obtain l r e where g: "getline_chars (pending s) = (l, r, e)"
    by (cases "getline_chars (pending s)") auto
  define s1 where "s1 = \<lparr>pending = r, ending = ReadError, eofbit = False,
      failbit = (pending s = []), badbit = e, exceptions = goodbit\<rparr>"
  have gl: "getline s line = (s1, l)"
    using "1.prems" g by (simp add: getline_good s1_def)
  have nt: "\<not> throws s1"
    by (rule default_mask_never_throws) (simp add: s1_def)
  have pe: "pending s = [] \<Longrightarrow> e"
    using g by auto
  have ne: "\<not> eof s1"
    by (simp add: s1_def eof_def)
  obtain p1 command1 parametar_line1 where
    pl: "parse_line lc p l command parametar_line = (p1, command1, parametar_line1)"
    by (cases "parse_line lc p l command parametar_line") auto
  show ?case
  proof (cases e)
    case True
    then have "fail s1 \<and> \<not> eof s1"
      by (simp add: s1_def fail_def eof_def)
    with gl nt show ?thesis
      by (subst (1 2) parse_loop.simps) simp
  next
    case False
    then have nf: "\<not> (fail s1 \<and> \<not> eof s1)"
      using pe by (auto simp: s1_def fail_def)
    have gs: "good s1" "ending s1 = ReadError" "exceptions s1 = goodbit"
      using False pe by (auto simp: s1_def good_def)
    have ih: "fst (parse_loop lc p1 s1 l command1 parametar_line1) = Returned False \<and>
      fst (snd (parse_loop lc p1 s1 l command1 parametar_line1)) = clear p1"
      using "1.IH" [OF gl [symmetric] nt nf pl [symmetric] refl ne gs] .
    have "parse_loop lc p s line command parametar_line =
        parse_loop lc p1 s1 l command1 parametar_line1"
      using gl nt nf pl ne by (subst parse_loop.simps) simp
    moreover have "clear p1 = clear p"
      using parse_line_clear [of lc p l command parametar_line] pl by simp
    ultimately show ?thesis
      using ih by simp
  qed
qed

lemma parse_loop_failure_clears:
  "fst (parse_loop lc p s line command parametar_line) = Returned False \<Longrightarrow>
   table (fst (snd (parse_loop lc p s line command parametar_line))) = Map.empty"
proof (induction lc p s line command parametar_line rule: parse_loop.induct)
  case (1 lc p s line command parametar_line)
  obtain s1 l where gl: "getline s line = (s1, l)"
    by (cases "getline s line") auto
  obtain p1 command1 parametar_line1 where
    pl: "parse_line lc p l command parametar_line = (p1, command1, parametar_line1)"
    by (cases "parse_line lc p l command parametar_line") auto
  show ?case
  proof (cases "throws s1")
    case True
    with gl have "fst (parse_loop lc p s line command parametar_line) = Thrown"
      by (subst parse_loop.simps) simp
    with "1.prems" show ?thesis by simp
  next
    case nt: False
    show ?thesis
    proof (cases "fail s1 \<and> \<not> eof s1")
      case True
      with gl nt show ?thesis
        by (subst parse_loop.simps) (simp add: clear_def)
    next
      case nf: False
      show ?thesis
      proof (cases "eof s1")
        case True
        with nt nf gl pl have "fst (parse_loop lc p s line command parametar_line) = Returned True"
          by (subst parse_loop.simps) simp
        with "1.prems" show ?thesis by simp
      next
        case False
        have eq: "parse_loop lc p s line command parametar_line =
            parse_loop lc p1 s1 l command1 parametar_line1"
          using gl nt nf pl False by (subst parse_loop.simps) simp
        with "1.prems" "1.IH" [OF gl [symmetric] nt nf pl [symmetric] refl False]
        show ?thesis by simp
      qed
    qed
  qed
qed

lemma classic_toupper_def:
  "toupper classic_locale c = (if islower c then char_of (of_char c - (32::nat)) else c)"
  by (simp add: toupper_def classic_locale_def)

lemma classic_toupper_ascii:
  "(of_char (toupper classic_locale c) :: nat) =
     (if islower c then of_char c - 32 else of_char c)"
proof (cases "islower c")
  case True
  define n :: nat where "n = of_char c"
  from True have n: "97 \<le> n" "n \<le> 122"
    by (simp_all add: islower_def n_def)
  then have "(n - 32) mod 256 = n - 32"
    by simp
  then have "(of_char (char_of (n - 32)) :: nat) = n - 32"
    by simp
  with True show ?thesis
    by (simp add: classic_toupper_def n_def)
next
  case False
  then show ?thesis by (simp add: classic_toupper_def)
qed



lemma latin1_toupper_not_lower: "\<not> islower (toupper latin1_locale c)"
proof -
  define n :: nat where "n = of_char c"
  have lt: "n < 256"
    unfolding n_def by simp
  show ?thesis
  proof (cases "islower c \<or> (224 \<le> n \<and> n \<le> 254 \<and> n \<noteq> 247)")
    case True
    then have ge: "97 \<le> n"
      by (auto simp: islower_def n_def)
    then have "(n - 32) mod 256 = n - 32"
      using lt by simp
    then have v: "(of_char (char_of (n - 32)) :: nat) = n - 32"
      by simp
    have "\<not> (97 \<le> n - 32 \<and> n - 32 \<le> 122)"
      using True by (auto simp: islower_def n_def)
    then have "\<not> islower (char_of (n - 32))"
      unfolding islower_def v .
    with True show ?thesis
      by (simp add: toupper_def latin1_locale_def n_def)
  next
    case False
    then show ?thesis
      by (auto simp: toupper_def latin1_locale_def n_def)
  qed
qed

lemma directive_token_nonempty: "significant line \<Longrightarrow> directive_token line \<noteq> []"
  by (auto simp: significant_def directive_token_def split: list.splits
      dest: dropWhile_eq_Cons_conv [THEN iffD1])


lemma dom_index_line:
  "dom (index_line lc m line) =
     (if significant line then insert (directive_key lc line) (dom m) else dom m)"
  by (auto simp: index_line_def split: if_splits)

lemma parameter_text_no_newline:
  assumes "newline \<notin> set l"
  shows "takeWhile (\<lambda>c. c \<noteq> newline) (parameter_text l) = parameter_text l"
proof -
  have "set (parameter_text l) \<subseteq> set l"
    unfolding parameter_text_def
    by (meson set_dropWhileD subsetI)
  with assms show ?thesis
    by (auto intro!: takeWhile_eq_all_conv [THEN iffD2])
qed

lemma index_line_lookup:
  "index_line lc m l k =
     (if significant l \<and> directive_key lc l = k
      then Some (stored m k @
        (if parameter_text l = [] then []
         else [takeWhile (\<lambda>c. c \<noteq> newline) (parameter_text l)]))
      else m k)"
  by (auto simp: index_line_def)

lemma foldl_index_line_lookup:
  assumes "\<forall>l\<in>set ls. newline \<notin> set l"
  shows "foldl (index_line lc) m ls k =
     (if m k = None \<and> \<not> (\<exists>l\<in>set ls. significant l \<and> directive_key lc l = k) then None
      else Some (stored m k @ map parameter_text (occurrences lc k ls)))"
  using assms
proof (induction ls arbitrary: m)
  case Nil
  then show ?case
    by (auto simp: occurrences_def stored_def split: option.splits)
next
  case (Cons l ls)
  have nl: "newline \<notin> set l" and rest: "\<forall>l\<in>set ls. newline \<notin> set l"
    using Cons.prems by auto
  have step: "foldl (index_line lc) m (l # ls) k = foldl (index_line lc) (index_line lc m l) ls k"
    by simp
  show ?case
    unfolding step Cons.IH [OF rest]
    by (auto simp: index_line_lookup parameter_text_no_newline [OF nl] occurrences_def
        stored_def split: option.splits)
qed



lemma stringstream_good:
  "good (stringstream str)" "ending (stringstream str) = EndOfStream"
  "pending (stringstream str) = str" "exceptions (stringstream str) = goodbit"
  by (simp_all add: stringstream_def good_def)

lemma new_parser_absent:
  "table new_parser k = None" "fst (get_command_parametars new_parser k) = []"
  by (simp_all add: new_parser_def get_command_parametars_def empty_vec_def)

lemma parse_end_of_stream:
  assumes "good s" and "ending s = EndOfStream" and "exceptions s = goodbit"
  shows "fst (parse lc p s) = Returned True"
    and "table (fst (snd (parse lc p s))) =
      foldl (index_line lc) (table p) (split_lines (pending s))"
  using parse_loop_end_of_stream [OF assms] by (simp_all add: parse_def)

lemma parse_end_of_stream_any_mask:
  assumes "good s" and "ending s = EndOfStream"
  shows "fst (parse lc p s) \<noteq> Returned False"
    and "\<exists>n. table (fst (snd (parse lc p s))) =
      foldl (index_line lc) (table p) (take n (split_lines (pending s)))"
  using parse_loop_end_of_stream_any_mask [OF assms] by (simp_all add: parse_def)

lemma parse_at_eof:
  assumes "eofbit s"
  shows "parse lc p s =
    (if throws (s\<lparr>failbit := True\<rparr>) then Thrown else Returned True, p, s\<lparr>failbit := True\<rparr>)"
  using assms
  by (simp add: parse_def parse_loop_at_eof parse_line_insignificant significant_def)

lemma parse_table_lookup:
  assumes "good s" and "ending s = EndOfStream" and "exceptions s = goodbit"
  shows "table (fst (snd (parse lc p s))) k =
     (if table p k = None \<and>
         \<not> (\<exists>l\<in>set (split_lines (pending s)). significant l \<and> directive_key lc l = k)
      then None
      else Some (stored (table p) k @
        map parameter_text (occurrences lc k (split_lines (pending s)))))"
  unfolding parse_end_of_stream(2) [OF assms]
  by (rule foldl_index_line_lookup) (simp add: split_lines_no_newline)


lemma foldl_index_line_extends:
  "m k = Some ps \<Longrightarrow> \<exists>qs. foldl (index_line lc) m ls k = Some (ps @ qs)"
proof (induction ls arbitrary: m ps)
  case Nil
  then show ?case by simp
next
  case (Cons l ls)
  from Cons.prems have "\<exists>qs. index_line lc m l k = Some (ps @ qs)"
    by (simp add: index_line_lookup stored_def)
  then obtain qs where q: "index_line lc m l k = Some (ps @ qs)" ..
  from Cons.IH [of "index_line lc m l" "ps @ qs", OF q] show ?case
    by auto
qed

lemma line_decomposition:
  "line = takeWhile isspace line @ directive_token line @
     takeWhile isspace (dropWhile (\<lambda>c. \<not> isspace c) (dropWhile isspace line)) @
     parameter_text line"
  by (simp add: directive_token_def parameter_text_def)

lemma parameter_text_hd:
  "parameter_text line \<noteq> [] \<Longrightarrow> \<not> isspace (hd (parameter_text line))"
  unfolding parameter_text_def by (rule hd_dropWhile)

lemma directive_token_run:
  assumes "significant line"
  shows "\<exists>lead rest. line = lead @ directive_token line @ rest \<and>
    (\<forall>c\<in>set lead. isspace c) \<and> directive_token line \<noteq> [] \<and>
    (\<forall>c\<in>set (directive_token line). \<not> isspace c) \<and> (rest = [] \<or> isspace (hd rest))"
proof -
  let ?rest = "dropWhile (\<lambda>c. \<not> isspace c) (dropWhile isspace line)"
  have "line = takeWhile isspace line @ directive_token line @ ?rest"
    by (simp add: directive_token_def)
  moreover have "\<forall>c\<in>set (takeWhile isspace line). isspace c"
    by (auto dest: set_takeWhileD)
  moreover have "\<forall>c\<in>set (directive_token line). \<not> isspace c"
    by (auto simp: directive_token_def dest: set_takeWhileD)
  moreover have "?rest = [] \<or> isspace (hd ?rest)"
    using hd_dropWhile [of "\<lambda>c. \<not> isspace c" "dropWhile isspace line"] by auto
  ultimately show ?thesis
    using directive_token_nonempty [OF assms] by blast
qed

lemma line_fields:
  assumes "significant l" and "parameter_text l \<noteq> []"
  shows "\<exists>lead sep. l = lead @ directive_token l @ sep @ parameter_text l \<and>
    (\<forall>c\<in>set lead. isspace c) \<and> directive_token l \<noteq> [] \<and>
    (\<forall>c\<in>set (directive_token l). \<not> isspace c) \<and> sep \<noteq> [] \<and> (\<forall>c\<in>set sep. isspace c) \<and>
    \<not> isspace (hd (parameter_text l))"
proof -
  let ?rest = "dropWhile (\<lambda>c. \<not> isspace c) (dropWhile isspace l)"
  let ?sep = "takeWhile isspace ?rest"
  have ne: "?rest \<noteq> []"
  proof
    assume "?rest = []"
    then have "parameter_text l = []"
      unfolding parameter_text_def by (simp only: dropWhile.simps)
    with assms(2) show False by simp
  qed
  then have "isspace (hd ?rest)"
    using hd_dropWhile [of "\<lambda>c. \<not> isspace c" "dropWhile isspace l"] by simp
  with ne have sep: "?sep \<noteq> []"
    by (cases ?rest) auto
  have "l = takeWhile isspace l @ directive_token l @ ?sep @ parameter_text l"
    by (rule line_decomposition)
  moreover have "\<forall>c\<in>set (takeWhile isspace l). isspace c" "\<forall>c\<in>set ?sep. isspace c"
    by (auto dest: set_takeWhileD)
  moreover have "\<forall>c\<in>set (directive_token l). \<not> isspace c"
    by (auto simp: directive_token_def dest: set_takeWhileD)
  ultimately show ?thesis
    using parameter_text_hd [OF assms(2)] directive_token_nonempty [OF assms(1)] sep by blast
qed

lemma parse_line_key:
  assumes "significant line"
  shows "fst (snd (parse_line lc p line command parametar_line)) = directive_key lc line"
  by (simp add: parse_line_significant [OF assms] Let_def directive_key_def)

lemma parse_dom:
  assumes "good s" and "ending s = EndOfStream" and "exceptions s = goodbit"
  shows "dom (table (fst (snd (parse lc p s)))) =
    dom (table p) \<union> set (map (directive_key lc) (filter significant (split_lines (pending s))))"
  using parse_table_lookup [OF assms, of lc p]
  by (auto simp: dom_def split: if_splits)

lemma get_command_parametars_stored:
  "fst (get_command_parametars p k) = stored (table p) k"
  by (simp add: get_command_parametars_def stored_def empty_vec_def split: option.splits)

lemma parse_stored:
  assumes "good s" and "ending s = EndOfStream" and "exceptions s = goodbit"
  shows "stored (table (fst (snd (parse lc p s)))) k =
    stored (table p) k @ map parameter_text (occurrences lc k (split_lines (pending s)))"
  using parse_table_lookup [OF assms, of lc p k]
  by (auto simp: stored_def occurrences_def filter_empty_conv split: option.splits)

lemma parse_line_skips_iff:
  "(\<forall>p command parametar_line.
      parse_line lc p line command parametar_line = (p, command, parametar_line)) \<longleftrightarrow>
   \<not> significant line"
proof
  assume a: "\<forall>p command parametar_line.
      parse_line lc p line command parametar_line = (p, command, parametar_line)"
  show "\<not> significant line"
  proof
    assume sg: "significant line"
    have "table (fst (parse_line lc new_parser line [] [])) = index_line lc Map.empty line"
      by (simp add: parse_line_table new_parser_def)
    with a have "index_line lc Map.empty line = Map.empty"
      by (simp add: new_parser_def)
    then have "dom (index_line lc Map.empty line) = {}"
      by simp
    with sg show False
      by (simp add: dom_index_line)
  qed
next
  assume "\<not> significant line"
  then show "\<forall>p command parametar_line.
      parse_line lc p line command parametar_line = (p, command, parametar_line)"
    by (simp add: parse_line_insignificant)
qed







text \<open>
  The test input of \<open>main\<close>, evaluated on the model in the "C" locale (with \<open>It is\<close>
  for \<open>It's\<close>): the five keys with their parameter lines, and no lowercase key.
\<close>

lemma main_example:
  "(case parse classic_locale new_parser (stringstream (''SET UTF-8'' @ [newline] @
      [newline] @ ''TRY abcdef '' @ [newline] @ [newline] @ ''SFX A Y 2'' @ [newline] @
      ''#comment1'' @ [newline] @ ''SFX A abc qwe .'' @ [newline] @ ''  #comment2'' @
      [newline] @ ''  sfx A zxc abc .'' @ [newline] @ ''  COMPLEXPREFIXES  '' @ [newline] @
      ''lang hu_HU #this is not comment. It is part of the parameter''))
    of (ok, p, s) \<Rightarrow>
      (ok, map (table p) [''SET'', ''TRY'', ''SFX'', ''COMPLEXPREFIXES'', ''LANG'', ''sfx''],
       eof s)) =
   (Returned True, [Some [''UTF-8''], Some [''abcdef ''],
      Some [''A Y 2'', ''A abc qwe .'', ''A zxc abc .''], Some [],
      Some [''hu_HU #this is not comment. It is part of the parameter''], None], True)"
  by code_simp

section \<open>The claims\<close>

text \<open>
  C1, as stated, fails for some input streams. With \<open>badbit\<close> in the exception mask,
  a read error after \<open>SFX A\<close>, newline, \<open>SF\<close> leaves \<open>parse\<close> by the exception that
  \<open>getline\<close> throws again: \<open>parse\<close> returns nothing and the table keeps its earlier key
  \<open>TRY\<close> and the line already indexed, while the stream has \<open>fail()\<close> without
  \<open>eof()\<close>. And a stream with the default mask that is entered with \<open>badbit\<close> and
  \<open>eofbit\<close> set has its read failing with \<open>eof()\<close> true: \<open>parse\<close> returns true and
  the table is kept.
\<close>

theorem parse_read_failure_counterexample:
  "fst (parse classic_locale \<lparr>table = [''TRY'' \<mapsto> [''abc'']]\<rparr>
     ((stringstream (''SFX A'' @ [newline] @ ''SF''))
        \<lparr>ending := ReadError, exceptions := goodbit\<lparr>has_badbit := True\<rparr>\<rparr>)) = Thrown \<and>
   fail (snd (snd (parse classic_locale \<lparr>table = [''TRY'' \<mapsto> [''abc'']]\<rparr>
     ((stringstream (''SFX A'' @ [newline] @ ''SF''))
        \<lparr>ending := ReadError, exceptions := goodbit\<lparr>has_badbit := True\<rparr>\<rparr>)))) \<and>
   \<not> eof (snd (snd (parse classic_locale \<lparr>table = [''TRY'' \<mapsto> [''abc'']]\<rparr>
     ((stringstream (''SFX A'' @ [newline] @ ''SF''))
        \<lparr>ending := ReadError, exceptions := goodbit\<lparr>has_badbit := True\<rparr>\<rparr>)))) \<and>
   table (fst (snd (parse classic_locale \<lparr>table = [''TRY'' \<mapsto> [''abc'']]\<rparr>
     ((stringstream (''SFX A'' @ [newline] @ ''SF''))
        \<lparr>ending := ReadError, exceptions := goodbit\<lparr>has_badbit := True\<rparr>\<rparr>)))) ''TRY'' =
     Some [''abc''] \<and>
   table (fst (snd (parse classic_locale \<lparr>table = [''TRY'' \<mapsto> [''abc'']]\<rparr>
     ((stringstream (''SFX A'' @ [newline] @ ''SF''))
        \<lparr>ending := ReadError, exceptions := goodbit\<lparr>has_badbit := True\<rparr>\<rparr>)))) ''SFX'' =
     Some [''A''] \<and>
   fst (parse classic_locale \<lparr>table = [''TRY'' \<mapsto> [''abc'']]\<rparr>
     ((stringstream ''SFX A'')\<lparr>eofbit := True, badbit := True\<rparr>)) = Returned True \<and>
   fail (snd (snd (parse classic_locale \<lparr>table = [''TRY'' \<mapsto> [''abc'']]\<rparr>
     ((stringstream ''SFX A'')\<lparr>eofbit := True, badbit := True\<rparr>)))) \<and>
   table (fst (snd (parse classic_locale \<lparr>table = [''TRY'' \<mapsto> [''abc'']]\<rparr>
     ((stringstream ''SFX A'')\<lparr>eofbit := True, badbit := True\<rparr>)))) ''TRY'' = Some [''abc'']"
  by code_simp

text \<open>
  C1, amended: for every parser state and every input stream that has the default
  exception mask and is not at end-of-file on entry, if a line read of \<open>parse\<close> fails
  for a reason other than the end of the stream (the source ends in a read error that
  the stream buffer throws, after any number of characters and complete lines, or the
  stream already carries \<open>failbit\<close> or \<open>badbit\<close>), then \<open>parse\<close> returns false and
  the table is empty afterwards, whatever it held before the call and whatever the
  earlier lines of this call had added. (A read error that the stream buffer reports
  as the end of the sequence is the end of the stream to \<open>getline\<close>, and to the
  model.)
\<close>

theorem parse_read_failure:
  assumes "exceptions s = goodbit" and "\<not> eofbit s"
    and "ending s = ReadError \<or> failbit s \<or> badbit s"
  shows "fst (parse lc p s) = Returned False \<and> table (fst (snd (parse lc p s))) = Map.empty"
proof (cases "good s")
  case True
  with assms(3) have "ending s = ReadError"
    by (auto simp: good_def)
  from parse_loop_read_error [OF True this assms(1)] show ?thesis
    by (simp add: parse_def clear_def)
next
  case False
  have "\<not> throws (s\<lparr>failbit := True\<rparr>)"
    by (rule default_mask_never_throws) (simp add: assms(1))
  with parse_loop_sentry_fails [OF False assms(2)] show ?thesis
    by (simp add: parse_def clear_def)
qed

theorem parse_read_failure_witness:
  "exceptions ((stringstream (''SFX A'' @ [newline] @ ''SF''))\<lparr>ending := ReadError\<rparr>) =
     goodbit \<and>
   \<not> eofbit ((stringstream (''SFX A'' @ [newline] @ ''SF''))\<lparr>ending := ReadError\<rparr>) \<and>
   ending ((stringstream (''SFX A'' @ [newline] @ ''SF''))\<lparr>ending := ReadError\<rparr>) = ReadError \<and>
   table \<lparr>table = [''TRY'' \<mapsto> [''abc'']]\<rparr> ''TRY'' = Some [''abc''] \<and>
   fst (parse classic_locale \<lparr>table = [''TRY'' \<mapsto> [''abc'']]\<rparr>
     ((stringstream (''SFX A'' @ [newline] @ ''SF''))\<lparr>ending := ReadError\<rparr>)) =
     Returned False \<and>
   table (fst (snd (parse classic_locale \<lparr>table = [''TRY'' \<mapsto> [''abc'']]\<rparr>
     ((stringstream (''SFX A'' @ [newline] @ ''SF''))\<lparr>ending := ReadError\<rparr>)))) = Map.empty"
  using parse_read_failure [where s = "(stringstream (''SFX A'' @ [newline] @ ''SF''))\<lparr>ending := ReadError\<rparr>"
      and p = "\<lparr>table = [''TRY'' \<mapsto> [''abc'']]\<rparr>" and lc = classic_locale]
  by (simp add: stringstream_def)

text \<open>
  C2, as stated, fails: the transform is \<open>toupper\<close> of the C library, which follows
  the locale the host has set. On the one-line input \<open>caf\<close> followed by the byte
  \<open>0xE9\<close>, a significant line that is its own token, the key in an ISO-8859-1 locale
  ends in \<open>0xC9\<close> and the key in the "C" locale ends in \<open>0xE9\<close>; the byte is not an
  ASCII letter, and an ASCII transform would leave it in every locale.
\<close>

theorem parse_line_directive_token_counterexample:
  "significant [CHR ''c'', CHR ''a'', CHR ''f'', CHR 0xE9] \<and>
   directive_token [CHR ''c'', CHR ''a'', CHR ''f'', CHR 0xE9] =
     [CHR ''c'', CHR ''a'', CHR ''f'', CHR 0xE9] \<and>
   \<not> islower (CHR 0xE9) \<and>
   table (fst (snd (parse latin1_locale new_parser
     (stringstream [CHR ''c'', CHR ''a'', CHR ''f'', CHR 0xE9]))))
     [CHR ''C'', CHR ''A'', CHR ''F'', CHR 0xC9] = Some [] \<and>
   table (fst (snd (parse latin1_locale new_parser
     (stringstream [CHR ''c'', CHR ''a'', CHR ''f'', CHR 0xE9]))))
     [CHR ''C'', CHR ''A'', CHR ''F'', CHR 0xE9] = None \<and>
   table (fst (snd (parse classic_locale new_parser
     (stringstream [CHR ''c'', CHR ''a'', CHR ''f'', CHR 0xE9]))))
     [CHR ''C'', CHR ''A'', CHR ''F'', CHR 0xE9] = Some [] \<and>
   table (fst (snd (parse classic_locale new_parser
     (stringstream [CHR ''c'', CHR ''a'', CHR ''f'', CHR 0xE9]))))
     [CHR ''C'', CHR ''A'', CHR ''F'', CHR 0xC9] = None"
  by code_simp

text \<open>
  C2, amended: on every significant line the loop body takes as the directive token the
  maximal run of characters that are not white space after the leading white space (the
  line is \<open>lead @ token @ rest\<close> with \<open>lead\<close> all white space, \<open>token\<close> non-empty and
  free of white space, and \<open>rest\<close> empty or starting with white space), and the key it
  enters in the table is the token with \<open>toupper\<close> of the C library's current locale
  applied to every character; a parse that reads its input to the end enters these keys
  for all significant lines of the input. In the "C" locale, which is in effect unless
  the host calls \<open>setlocale\<close>, \<open>toupper\<close> is the fixed ASCII transform: it subtracts
  32 from the bytes \<open>a\<close> to \<open>z\<close> and leaves every other byte. In that locale the inputs
  \<open>sfx\<close>, \<open>SFX\<close> and \<open>Sfx\<close> each give a table whose only key is \<open>SFX\<close>.
\<close>

theorem parse_line_directive_token:
  assumes "significant line"
  shows "(\<exists>lead rest. line = lead @ directive_token line @ rest \<and>
      (\<forall>c\<in>set lead. isspace c) \<and> directive_token line \<noteq> [] \<and>
      (\<forall>c\<in>set (directive_token line). \<not> isspace c) \<and> (rest = [] \<or> isspace (hd rest))) \<and>
    fst (snd (parse_line lc p line command parametar_line)) =
      map (toupper lc) (directive_token line) \<and>
    dom (table (fst (parse_line lc p line command parametar_line))) =
      insert (map (toupper lc) (directive_token line)) (dom (table p)) \<and>
    (good s \<and> ending s = EndOfStream \<and> exceptions s = goodbit \<longrightarrow>
      dom (table (fst (snd (parse lc p s)))) =
        dom (table p) \<union>
        set (map (\<lambda>l. map (toupper lc) (directive_token l))
          (filter significant (split_lines (pending s))))) \<and>
    (\<forall>c. (of_char (toupper classic_locale c) :: nat) =
      (if islower c then of_char c - 32 else of_char c)) \<and>
    dom (table (fst (snd (parse classic_locale new_parser (stringstream ''sfx''))))) =
      {''SFX''} \<and>
    dom (table (fst (snd (parse classic_locale new_parser (stringstream ''SFX''))))) =
      {''SFX''} \<and>
    dom (table (fst (snd (parse classic_locale new_parser (stringstream ''Sfx''))))) =
      {''SFX''}"
proof -
  have k: "directive_key classic_locale ''sfx'' = ''SFX''"
    "directive_key classic_locale ''SFX'' = ''SFX''"
    "directive_key classic_locale ''Sfx'' = ''SFX''"
    by code_simp+
  have sg: "significant ''sfx''" "significant ''SFX''" "significant ''Sfx''"
    by (simp_all add: significant_def isspace_def)
  have ex: "dom (table (fst (snd (parse classic_locale new_parser (stringstream ''sfx''))))) =
      {''SFX''}"
    "dom (table (fst (snd (parse classic_locale new_parser (stringstream ''SFX''))))) =
      {''SFX''}"
    "dom (table (fst (snd (parse classic_locale new_parser (stringstream ''Sfx''))))) =
      {''SFX''}"
    by (simp_all add: parse_dom stringstream_good k sg new_parser_def newline_def)
  have d: "dom (table (fst (parse_line lc p line command parametar_line))) =
      insert (map (toupper lc) (directive_token line)) (dom (table p))"
    using assms by (simp add: parse_line_table dom_index_line directive_key_def)
  have pd: "dom (table (fst (snd (parse lc p s)))) =
        dom (table p) \<union>
        set (map (\<lambda>l. map (toupper lc) (directive_token l))
          (filter significant (split_lines (pending s))))"
    if "good s" "ending s = EndOfStream" "exceptions s = goodbit"
    using parse_dom [OF that, of lc p] by (simp add: directive_key_def [abs_def])
  show ?thesis
    using directive_token_run [OF assms]
      parse_line_key [OF assms, of lc p command parametar_line] d pd ex classic_toupper_ascii
    by (simp add: directive_key_def)
qed

theorem parse_line_directive_token_witness:
  "significant ''  sfx A zxc abc .'' \<and>
   directive_token ''  sfx A zxc abc .'' = ''sfx'' \<and>
   fst (snd (parse_line classic_locale new_parser ''  sfx A zxc abc .'' [] [])) = ''SFX'' \<and>
   dom (table (fst (parse_line classic_locale new_parser ''  sfx A zxc abc .'' [] []))) =
     {''SFX''} \<and>
   good (stringstream ''  sfx A zxc abc .'') \<and>
   ending (stringstream ''  sfx A zxc abc .'') = EndOfStream \<and>
   exceptions (stringstream ''  sfx A zxc abc .'') = goodbit \<and>
   dom (table (fst (snd (parse classic_locale new_parser
     (stringstream ''  sfx A zxc abc .''))))) = {''SFX''}"
proof -
  let ?l = "''  sfx A zxc abc .''"
  have sg: "significant ?l"
    by (simp add: significant_def isspace_def)
  have tk: "directive_token ?l = ''sfx''"
    by (simp add: directive_token_def isspace_def)
  have up: "map (toupper classic_locale) ''sfx'' = ''SFX''"
    by code_simp
  have sl: "split_lines (pending (stringstream ?l)) = [?l]"
    unfolding stringstream_good by code_simp
  have d0: "dom (table new_parser) = {}"
    by (simp add: new_parser_def)
  note t = parse_line_directive_token [OF sg, where lc = classic_locale and p = new_parser
      and command = "[]" and parametar_line = "[]" and s = "stringstream ?l"]
  have a: "fst (snd (parse_line classic_locale new_parser ?l [] [])) = ''SFX''"
    using t [THEN conjunct2, THEN conjunct1] unfolding tk up .
  have b: "dom (table (fst (parse_line classic_locale new_parser ?l [] []))) = {''SFX''}"
    using t [THEN conjunct2, THEN conjunct2, THEN conjunct1] unfolding tk up d0 .
  have "dom (table (fst (snd (parse classic_locale new_parser (stringstream ?l))))) =
      dom (table new_parser) \<union>
      set (map (\<lambda>l. map (toupper classic_locale) (directive_token l))
        (filter significant (split_lines (pending (stringstream ?l)))))"
    using t [THEN conjunct2, THEN conjunct2, THEN conjunct2, THEN conjunct1]
      stringstream_good(1,2,4) [of ?l] by blast
  then have c: "dom (table (fst (snd (parse classic_locale new_parser (stringstream ?l))))) =
      {''SFX''}"
    unfolding sl d0 using up by (simp add: sg tk)
  from sg tk a b c stringstream_good(1,2,4) [of ?l] show ?thesis
    by blast
qed

text \<open>
  C3: on a stream that is good, ends at end-of-stream and has the default exception
  mask, in any locale, \<open>parse\<close> succeeds and the
  parameter lines of a key \<open>k\<close> afterwards are those it had before followed by the
  parameter texts of the lines of the input whose uppercased token is \<open>k\<close> and that
  carry parameter text, in file order: as many as there are such lines (exactly those
  lines on a fresh parser). Each stored text is the rest of its source line from the
  first character that is not white space after the token to the end of the line: the
  line is \<open>lead @ token @ sep @ text\<close> with \<open>lead\<close> and \<open>sep\<close> white space, \<open>sep\<close>
  not empty, \<open>text\<close> starting with a character that is not white space, and no newline
  in the line. The lines are the input split at the newlines.
\<close>

theorem parse_parameter_lines:
  assumes "good s" and "ending s = EndOfStream" and "exceptions s = goodbit"
  shows "fst (parse lc p s) = Returned True \<and>
    fst (get_command_parametars (fst (snd (parse lc p s))) k) =
      fst (get_command_parametars p k) @
      map parameter_text (occurrences lc k (split_lines (pending s))) \<and>
    occurrences lc k (split_lines (pending s)) =
      filter (\<lambda>l. significant l \<and> map (toupper lc) (directive_token l) = k \<and>
          parameter_text l \<noteq> [])
        (split_lines (pending s)) \<and>
    length (fst (get_command_parametars (fst (snd (parse lc p s))) k)) =
      length (fst (get_command_parametars p k)) +
      length (occurrences lc k (split_lines (pending s))) \<and>
    (\<forall>l\<in>set (occurrences lc k (split_lines (pending s))). newline \<notin> set l \<and>
      (\<exists>lead sep. l = lead @ directive_token l @ sep @ parameter_text l \<and>
        (\<forall>c\<in>set lead. isspace c) \<and> directive_token l \<noteq> [] \<and>
        (\<forall>c\<in>set (directive_token l). \<not> isspace c) \<and> sep \<noteq> [] \<and>
        (\<forall>c\<in>set sep. isspace c) \<and> \<not> isspace (hd (parameter_text l)))) \<and>
    join_lines (split_lines (pending s)) = pending s"
proof -
  have a: "fst (parse lc p s) = Returned True"
    by (rule parse_end_of_stream(1) [OF assms])
  have b: "fst (get_command_parametars (fst (snd (parse lc p s))) k) =
      fst (get_command_parametars p k) @
      map parameter_text (occurrences lc k (split_lines (pending s)))"
    by (simp add: get_command_parametars_stored parse_stored [OF assms])
  have c: "occurrences lc k ls =
      filter (\<lambda>l. significant l \<and> map (toupper lc) (directive_token l) = k \<and>
          parameter_text l \<noteq> [])
        ls" for ls
    by (simp add: occurrences_def directive_key_def)
  have d: "newline \<notin> set l \<and>
      (\<exists>lead sep. l = lead @ directive_token l @ sep @ parameter_text l \<and>
        (\<forall>c\<in>set lead. isspace c) \<and> directive_token l \<noteq> [] \<and>
        (\<forall>c\<in>set (directive_token l). \<not> isspace c) \<and> sep \<noteq> [] \<and>
        (\<forall>c\<in>set sep. isspace c) \<and> \<not> isspace (hd (parameter_text l)))"
    if "l \<in> set (occurrences lc k (split_lines (pending s)))" for l
  proof -
    from that have "l \<in> set (split_lines (pending s))" "significant l" "parameter_text l \<noteq> []"
      by (simp_all add: occurrences_def)
    then show ?thesis
      using split_lines_no_newline [of l "pending s"] line_fields [of l] by blast
  qed
  from a b c [of "split_lines (pending s)"] d join_split_lines [of "pending s"] show ?thesis
    by simp
qed

theorem parse_parameter_lines_witness:
  "good (stringstream (''SFX A Y 2'' @ [newline] @ ''SFX A abc qwe .'' @ [newline] @ ''#c'' @
     [newline] @ ''sfx A zxc abc .'')) \<and>
   ending (stringstream (''SFX A Y 2'' @ [newline] @ ''SFX A abc qwe .'' @ [newline] @ ''#c'' @
     [newline] @ ''sfx A zxc abc .'')) = EndOfStream \<and>
   exceptions (stringstream (''SFX A Y 2'' @ [newline] @ ''SFX A abc qwe .'' @ [newline] @
     ''#c'' @ [newline] @ ''sfx A zxc abc .'')) = goodbit \<and>
   fst (parse classic_locale new_parser (stringstream (''SFX A Y 2'' @ [newline] @
     ''SFX A abc qwe .'' @ [newline] @ ''#c'' @ [newline] @ ''sfx A zxc abc .''))) =
     Returned True \<and>
   fst (get_command_parametars (fst (snd (parse classic_locale new_parser (stringstream
     (''SFX A Y 2'' @ [newline] @ ''SFX A abc qwe .'' @ [newline] @ ''#c'' @ [newline] @
      ''sfx A zxc abc .''))))) ''SFX'') = [''A Y 2'', ''A abc qwe .'', ''A zxc abc .'']"
proof -
  define inp where "inp = ''SFX A Y 2'' @ [newline] @ ''SFX A abc qwe .'' @ [newline] @ ''#c'' @
     [newline] @ ''sfx A zxc abc .''"
  have ev: "map parameter_text (occurrences classic_locale ''SFX'' (split_lines inp)) =
      [''A Y 2'', ''A abc qwe .'', ''A zxc abc .'']"
    unfolding inp_def by code_simp
  note t = parse_parameter_lines [OF stringstream_good(1,2,4) [of inp], where lc = classic_locale and p = new_parser
      and k = "''SFX''"]
  have a: "fst (parse classic_locale new_parser (stringstream inp)) = Returned True"
    by (rule t [THEN conjunct1])
  have "fst (get_command_parametars
        (fst (snd (parse classic_locale new_parser (stringstream inp)))) ''SFX'') =
      fst (get_command_parametars new_parser ''SFX'') @
      map parameter_text
        (occurrences classic_locale ''SFX'' (split_lines (pending (stringstream inp))))"
    by (rule t [THEN conjunct2, THEN conjunct1])
  then have b: "fst (get_command_parametars
        (fst (snd (parse classic_locale new_parser (stringstream inp)))) ''SFX'') =
      [''A Y 2'', ''A abc qwe .'', ''A zxc abc .'']"
    unfolding stringstream_good(3) ev new_parser_absent by simp
  from a b stringstream_good(1,2,4) [of inp] show ?thesis
    unfolding inp_def by blast
qed

text \<open>
  C4, as stated, fails: in the input \<open>SFX A\<close>, newline, \<open>SFX\<close> the second line is a
  directive line with no parameter text, the parse succeeds, \<open>is_command_present\<close> is
  true for \<open>SFX\<close>, and \<open>get_command_parametars\<close> returns \<open>[A]\<close>, not the empty
  sequence.
\<close>

theorem directive_without_parameters_counterexample:
  "split_lines (''SFX A'' @ [newline] @ ''SFX'') = [''SFX A'', ''SFX''] \<and>
   significant ''SFX'' \<and> directive_token ''SFX'' = ''SFX'' \<and> parameter_text ''SFX'' = [] \<and>
   fst (parse classic_locale new_parser (stringstream (''SFX A'' @ [newline] @ ''SFX''))) =
     Returned True \<and>
   fst (is_command_present
     (fst (snd (parse classic_locale new_parser
       (stringstream (''SFX A'' @ [newline] @ ''SFX''))))) ''SFX'') = True \<and>
   fst (get_command_parametars
     (fst (snd (parse classic_locale new_parser
       (stringstream (''SFX A'' @ [newline] @ ''SFX''))))) ''SFX'') = [''A''] \<and>
   fst (get_command_parametars
     (fst (snd (parse classic_locale new_parser
       (stringstream (''SFX A'' @ [newline] @ ''SFX''))))) ''SFX'') \<noteq> []"
proof -
  have sl: "split_lines (''SFX A'' @ [newline] @ ''SFX'') = [''SFX A'', ''SFX'']"
    by code_simp
  have ev: "significant ''SFX''" "directive_token ''SFX'' = ''SFX''" "parameter_text ''SFX'' = []"
    by (simp_all add: significant_def directive_token_def parameter_text_def isspace_def)
  have ok: "fst (parse classic_locale new_parser
      (stringstream (''SFX A'' @ [newline] @ ''SFX''))) = Returned True"
    by code_simp
  have t: "table (fst (snd (parse classic_locale new_parser
      (stringstream (''SFX A'' @ [newline] @ ''SFX''))))) ''SFX'' = Some [''A'']"
    by code_simp
  from sl ev ok t show ?thesis
    by (simp add: get_command_parametars_def is_command_present_def umap_count_def)
qed

text \<open>
  C4, amended: for every directive line of the input with no parameter text after the
  token, a successful parse (the stream is good, ends at end-of-stream and has the
  default exception mask) creates or keeps the entry of the uppercased key and appends
  nothing for that line: afterwards \<open>is_command_present\<close> on the key is true and
  \<open>get_command_parametars\<close> returns the parameter lines the key had before the call
  followed by those of its other occurrences in the input, which is the empty sequence
  when there are none. The loop body on that line alone leaves the key with exactly the
  parameter lines it had.
\<close>

theorem directive_without_parameters:
  assumes "good s" and "ending s = EndOfStream" and "exceptions s = goodbit"
    and "l \<in> set (split_lines (pending s))" and "significant l" and "parameter_text l = []"
  shows "fst (parse lc p s) = Returned True \<and>
    fst (is_command_present (fst (snd (parse lc p s))) (directive_key lc l)) = True \<and>
    fst (get_command_parametars (fst (snd (parse lc p s))) (directive_key lc l)) =
      fst (get_command_parametars p (directive_key lc l)) @
      map parameter_text (occurrences lc (directive_key lc l) (split_lines (pending s))) \<and>
    l \<notin> set (occurrences lc (directive_key lc l) (split_lines (pending s))) \<and>
    (fst (get_command_parametars p (directive_key lc l)) = [] \<and>
     occurrences lc (directive_key lc l) (split_lines (pending s)) = [] \<longrightarrow>
       fst (get_command_parametars (fst (snd (parse lc p s))) (directive_key lc l)) = []) \<and>
    table (fst (parse_line lc p l command parametar_line)) (directive_key lc l) =
      Some (fst (get_command_parametars p (directive_key lc l)))"
proof -
  have pres: "table (fst (snd (parse lc p s))) (directive_key lc l) \<noteq> None"
    using parse_table_lookup [OF assms(1,2,3), of lc p "directive_key lc l"] assms(4,5) by auto
  have one: "table (fst (parse_line lc p l command parametar_line)) (directive_key lc l) =
      Some (stored (table p) (directive_key lc l))"
    using assms(5,6) by (simp add: parse_line_table index_line_lookup)
  show ?thesis
    using parse_end_of_stream(1) [OF assms(1,2,3), of lc p]
      parse_stored [OF assms(1,2,3), of lc p "directive_key lc l"] pres one assms(6)
    by (auto simp: get_command_parametars_stored is_command_present_def umap_count_def
        occurrences_def split: option.splits)
qed

theorem directive_without_parameters_witness:
  "good (stringstream ''  COMPLEXPREFIXES  '') \<and>
   ending (stringstream ''  COMPLEXPREFIXES  '') = EndOfStream \<and>
   exceptions (stringstream ''  COMPLEXPREFIXES  '') = goodbit \<and>
   split_lines (pending (stringstream ''  COMPLEXPREFIXES  '')) = [''  COMPLEXPREFIXES  ''] \<and>
   significant ''  COMPLEXPREFIXES  '' \<and> parameter_text ''  COMPLEXPREFIXES  '' = [] \<and>
   fst (parse classic_locale new_parser (stringstream ''  COMPLEXPREFIXES  '')) =
     Returned True \<and>
   fst (is_command_present
     (fst (snd (parse classic_locale new_parser (stringstream ''  COMPLEXPREFIXES  ''))))
     ''COMPLEXPREFIXES'') = True \<and>
   fst (get_command_parametars
     (fst (snd (parse classic_locale new_parser (stringstream ''  COMPLEXPREFIXES  ''))))
     ''COMPLEXPREFIXES'') = []"
proof -
  let ?l = "''  COMPLEXPREFIXES  ''"
  have sl: "split_lines (pending (stringstream ?l)) = [?l]"
    unfolding stringstream_good by code_simp
  have sg: "significant ?l" and pt: "parameter_text ?l = []"
    by (simp_all add: significant_def parameter_text_def isspace_def)
  have k: "directive_key classic_locale ?l = ''COMPLEXPREFIXES''"
    by code_simp
  have mem: "?l \<in> set (split_lines (pending (stringstream ?l)))"
    by (simp add: sl)
  have oc: "occurrences classic_locale ''COMPLEXPREFIXES'' [?l] = []"
    by (simp add: occurrences_def pt)
  from directive_without_parameters [OF stringstream_good(1,2,4) mem sg pt,
      where lc = classic_locale and p = new_parser and command = "[]"
      and parametar_line = "[]"]
  show ?thesis
    by (simp add: stringstream_good(1,2,4) sl sg pt k oc new_parser_absent)
qed

text \<open>
  C5: the loop body skips a line (leaves parser and locals as they are, whatever they
  are) exactly when nothing but white space is on it or its first character that is not
  white space is \<open>#\<close>. On a significant line whose parameter text contains \<open>#\<close>, the
  whole parameter text, with the \<open>#\<close> and everything after it, is appended to the
  parameter lines of the key and no other key changes; after a parse of an input with
  such a line, on a good stream that ends at end-of-stream and has the default
  exception mask, the text is among the parameter lines of its key.
\<close>

theorem inline_hash_is_parameter_text:
  "((\<forall>p command parametar_line.
       parse_line lc p line command parametar_line = (p, command, parametar_line)) \<longleftrightarrow>
    (case dropWhile isspace line of [] \<Rightarrow> True | c # cs \<Rightarrow> c = CHR ''#'')) \<and>
   (significant line \<and> newline \<notin> set line \<and> CHR ''#'' \<in> set (parameter_text line) \<longrightarrow>
      table (fst (parse_line lc p line command parametar_line)) (directive_key lc line) =
        Some (fst (get_command_parametars p (directive_key lc line)) @ [parameter_text line]) \<and>
      (\<forall>k. k \<noteq> directive_key lc line \<longrightarrow>
        table (fst (parse_line lc p line command parametar_line)) k = table p k)) \<and>
   (good s \<and> ending s = EndOfStream \<and> exceptions s = goodbit \<and>
    line \<in> set (split_lines (pending s)) \<and>
    significant line \<and> CHR ''#'' \<in> set (parameter_text line) \<longrightarrow>
      fst (parse lc p s) = Returned True \<and>
      parameter_text line \<in>
        set (fst (get_command_parametars (fst (snd (parse lc p s))) (directive_key lc line))))"
proof -
  have a: "(\<forall>p command parametar_line.
       parse_line lc p line command parametar_line = (p, command, parametar_line)) \<longleftrightarrow>
    (case dropWhile isspace line of [] \<Rightarrow> True | c # cs \<Rightarrow> c = CHR ''#'')"
  proof -
    have "(\<not> (case xs of [] \<Rightarrow> False | c # cs \<Rightarrow> c \<noteq> CHR ''#'')) =
        (case xs of [] \<Rightarrow> True | c # cs \<Rightarrow> c = CHR ''#'')" for xs :: string
      by (cases xs) simp_all
    then show ?thesis
      unfolding parse_line_skips_iff significant_def .
  qed
  have b: "table (fst (parse_line lc p line command parametar_line)) (directive_key lc line) =
        Some (fst (get_command_parametars p (directive_key lc line)) @ [parameter_text line]) \<and>
      (\<forall>k. k \<noteq> directive_key lc line \<longrightarrow>
        table (fst (parse_line lc p line command parametar_line)) k = table p k)"
    if "significant line" "newline \<notin> set line" "CHR ''#'' \<in> set (parameter_text line)"
  proof -
    from that(3) have "parameter_text line \<noteq> []"
      by auto
    with that(1,2) show ?thesis
      by (auto simp: parse_line_table index_line_lookup parameter_text_no_newline
          get_command_parametars_stored)
  qed
  have c: "fst (parse lc p s) = Returned True \<and>
      parameter_text line \<in>
        set (fst (get_command_parametars (fst (snd (parse lc p s))) (directive_key lc line)))"
    if "good s" "ending s = EndOfStream" "exceptions s = goodbit"
      "line \<in> set (split_lines (pending s))"
      "significant line" "CHR ''#'' \<in> set (parameter_text line)"
  proof -
    from that(6) have "parameter_text line \<noteq> []"
      by auto
    with that(4,5)
    have "line \<in> set (occurrences lc (directive_key lc line) (split_lines (pending s)))"
      by (simp add: occurrences_def)
    then show ?thesis
      using parse_end_of_stream(1) [OF that(1,2,3), of lc p]
        parse_stored [OF that(1,2,3), of lc p "directive_key lc line"]
      by (auto simp: get_command_parametars_stored)
  qed
  from a b c show ?thesis
    by blast
qed

theorem inline_hash_is_parameter_text_witness:
  "significant ''lang hu_HU #not comment'' \<and>
   newline \<notin> set ''lang hu_HU #not comment'' \<and>
   CHR ''#'' \<in> set (parameter_text ''lang hu_HU #not comment'') \<and>
   table (fst (parse_line classic_locale new_parser ''lang hu_HU #not comment'' [] [])) ''LANG'' =
     Some [''hu_HU #not comment''] \<and>
   good (stringstream ''lang hu_HU #not comment'') \<and>
   ending (stringstream ''lang hu_HU #not comment'') = EndOfStream \<and>
   exceptions (stringstream ''lang hu_HU #not comment'') = goodbit \<and>
   ''lang hu_HU #not comment'' \<in>
     set (split_lines (pending (stringstream ''lang hu_HU #not comment''))) \<and>
   fst (parse classic_locale new_parser (stringstream ''lang hu_HU #not comment'')) = Returned True \<and>
   ''hu_HU #not comment'' \<in> set (fst (get_command_parametars
     (fst (snd (parse classic_locale new_parser (stringstream ''lang hu_HU #not comment'')))) ''LANG''))"
proof -
  let ?l = "''lang hu_HU #not comment''"
  have sg: "significant ?l"
    by (simp add: significant_def isspace_def)
  have pt: "parameter_text ?l = ''hu_HU #not comment''"
    by (simp add: parameter_text_def isspace_def)
  have nl: "newline \<notin> set ?l"
    by (simp add: newline_def)
  have h: "CHR ''#'' \<in> set (parameter_text ?l)"
    unfolding pt by simp
  have k: "directive_key classic_locale ?l = ''LANG''"
    by code_simp
  have sl: "split_lines (pending (stringstream ?l)) = [?l]"
    unfolding stringstream_good by code_simp
  have mem: "?l \<in> set (split_lines (pending (stringstream ?l)))"
    unfolding sl by simp
  note t = inline_hash_is_parameter_text [where lc = classic_locale and line = ?l and p = new_parser and command = "[]"
      and parametar_line = "[]" and s = "stringstream ?l"]
  from t [THEN conjunct2, THEN conjunct1] sg nl h
  have "table (fst (parse_line classic_locale new_parser ?l [] [])) (directive_key classic_locale ?l) =
      Some (fst (get_command_parametars new_parser (directive_key classic_locale ?l)) @ [parameter_text ?l])"
    by blast
  then have a: "table (fst (parse_line classic_locale new_parser ?l [] [])) ''LANG'' =
      Some [''hu_HU #not comment'']"
    unfolding k pt new_parser_absent by simp
  from t [THEN conjunct2, THEN conjunct2] stringstream_good(1,2,4) [of ?l] mem sg h
  have "fst (parse classic_locale new_parser (stringstream ?l)) = Returned True \<and>
      parameter_text ?l \<in>
        set (fst (get_command_parametars (fst (snd (parse classic_locale new_parser (stringstream ?l))))
          (directive_key classic_locale ?l)))"
    by blast
  then have b: "fst (parse classic_locale new_parser (stringstream ?l)) = Returned True"
    "''hu_HU #not comment'' \<in> set (fst (get_command_parametars
       (fst (snd (parse classic_locale new_parser (stringstream ?l)))) ''LANG''))"
    unfolding k pt by blast+
  from sg nl h a stringstream_good(1,2,4) [of ?l] mem b show ?thesis
    by blast
qed




text \<open>
  C7: \<open>parse\<close> does not reset the table. On a stream whose reads succeed up to the end
  of the stream, every key stored before the call is still there afterwards, with its
  earlier parameter lines first and in their order and new ones only appended; this
  holds under every exception mask and in every locale. With the default mask the
  call returns true and what is appended are the parameter lines of the new
  occurrences in the input. \<open>clear\<close> empties the table.
\<close>

theorem parse_accumulates:
  assumes "ending s = EndOfStream" and "good s \<or> eofbit s" and "table p k = Some ps"
  shows "(\<exists>qs. table (fst (snd (parse lc p s))) k = Some (ps @ qs)) \<and>
    (exceptions s = goodbit \<longrightarrow>
      fst (parse lc p s) = Returned True \<and>
      table (fst (snd (parse lc p s))) k =
        Some (ps @ (if good s
          then map parameter_text (occurrences lc k (split_lines (pending s))) else []))) \<and>
    table (clear p) = Map.empty"
proof (cases "good s")
  case True
  from parse_end_of_stream_any_mask(2) [OF True assms(1), of lc p]
  obtain n where n: "table (fst (snd (parse lc p s))) =
      foldl (index_line lc) (table p) (take n (split_lines (pending s)))" ..
  have a: "\<exists>qs. table (fst (snd (parse lc p s))) k = Some (ps @ qs)"
    unfolding n using assms(3) by (rule foldl_index_line_extends [of "table p" k ps])
  have b: "fst (parse lc p s) = Returned True \<and>
      table (fst (snd (parse lc p s))) k =
        Some (ps @ (if good s
          then map parameter_text (occurrences lc k (split_lines (pending s))) else []))"
    if m: "exceptions s = goodbit"
    using parse_end_of_stream(1) [OF True assms(1) m, of lc p]
      parse_table_lookup [OF True assms(1) m, of lc p k] assms(3) True
    by (simp add: stored_def)
  from a b show ?thesis
    by (simp add: clear_def)
next
  case False
  with assms have "eofbit s" by simp
  then have e: "parse lc p s =
      (if throws (s\<lparr>failbit := True\<rparr>) then Thrown else Returned True, p, s\<lparr>failbit := True\<rparr>)"
    by (rule parse_at_eof)
  have "exceptions s = goodbit \<Longrightarrow> \<not> throws (s\<lparr>failbit := True\<rparr>)"
    by (rule default_mask_never_throws) simp
  with e False assms(3) show ?thesis
    by (simp add: clear_def)
qed

theorem parse_accumulates_witness:
  "ending (stringstream (''sfx A abc qwe .'' @ [newline] @ ''TRY abc'')) = EndOfStream \<and>
   good (stringstream (''sfx A abc qwe .'' @ [newline] @ ''TRY abc'')) \<and>
   exceptions (stringstream (''sfx A abc qwe .'' @ [newline] @ ''TRY abc'')) = goodbit \<and>
   table \<lparr>table = [''SFX'' \<mapsto> [''A Y 2'']]\<rparr> ''SFX'' = Some [''A Y 2''] \<and>
   fst (parse classic_locale \<lparr>table = [''SFX'' \<mapsto> [''A Y 2'']]\<rparr>
     (stringstream (''sfx A abc qwe .'' @ [newline] @ ''TRY abc''))) = Returned True \<and>
   table (fst (snd (parse classic_locale \<lparr>table = [''SFX'' \<mapsto> [''A Y 2'']]\<rparr>
     (stringstream (''sfx A abc qwe .'' @ [newline] @ ''TRY abc''))))) ''SFX'' =
     Some [''A Y 2'', ''A abc qwe .'']"
proof -
  define inp where "inp = ''sfx A abc qwe .'' @ [newline] @ ''TRY abc''"
  define p :: aff_parser where "p = \<lparr>table = [''SFX'' \<mapsto> [''A Y 2'']]\<rparr>"
  have pk: "table p ''SFX'' = Some [''A Y 2'']"
    by (simp add: p_def)
  have ev: "map parameter_text (occurrences classic_locale ''SFX'' (split_lines inp)) =
      [''A abc qwe .'']"
    unfolding inp_def by code_simp
  note t = parse_accumulates [OF stringstream_good(2) [of inp]
      disjI1 [OF stringstream_good(1)] pk, where lc = classic_locale]
  note u = t [THEN conjunct2, THEN conjunct1, THEN mp, OF stringstream_good(4)]
  have a: "fst (parse classic_locale p (stringstream inp)) = Returned True"
    by (rule u [THEN conjunct1])
  have "table (fst (snd (parse classic_locale p (stringstream inp)))) ''SFX'' =
      Some ([''A Y 2''] @ (if good (stringstream inp)
        then map parameter_text
          (occurrences classic_locale ''SFX'' (split_lines (pending (stringstream inp))))
        else []))"
    by (rule u [THEN conjunct2])
  then have b: "table (fst (snd (parse classic_locale p (stringstream inp)))) ''SFX'' =
      Some [''A Y 2'', ''A abc qwe .'']"
    using stringstream_good(1) [of inp] unfolding stringstream_good(3) ev by simp
  from a b pk stringstream_good(1,2,4) [of inp] show ?thesis
    unfolding inp_def p_def by blast
qed



text \<open>
  C9: for every name, \<open>get_command_parametars\<close> returns the stored parameter lines of
  the key when the key is in the table and the empty sequence when it is not. It is a
  total function with no failure outcome, so its result is the same for an absent key
  and for a key that is present with no parameter line (the table after
  \<open>table[name]\<close> on the absent key), which only \<open>is_command_present\<close> tells apart.
\<close>

theorem get_command_parametars_result:
  "fst (get_command_parametars p name) = (case table p name of Some v \<Rightarrow> v | None \<Rightarrow> []) \<and>
   (table p name = None \<longrightarrow>
      fst (get_command_parametars p name) =
        fst (get_command_parametars (p\<lparr>table := fst (umap_index (table p) name)\<rparr>) name) \<and>
      fst (is_command_present p name) = False \<and>
      fst (is_command_present (p\<lparr>table := fst (umap_index (table p) name)\<rparr>) name) = True)"
  by (auto simp: get_command_parametars_def is_command_present_def umap_index_def
      umap_count_def empty_vec_def split: option.splits)

theorem get_command_parametars_result_witness:
  "table new_parser ''SFX'' = None \<and>
   fst (get_command_parametars new_parser ''SFX'') = [] \<and>
   fst (get_command_parametars (new_parser\<lparr>table := fst (umap_index (table new_parser) ''SFX'')\<rparr>)
     ''SFX'') = [] \<and>
   fst (is_command_present new_parser ''SFX'') = False \<and>
   fst (is_command_present (new_parser\<lparr>table := fst (umap_index (table new_parser) ''SFX'')\<rparr>)
     ''SFX'') = True"
  using get_command_parametars_result [of new_parser "''SFX''"]
  by (simp add: new_parser_def get_command_parametars_def is_command_present_def
      umap_index_def umap_count_def empty_vec_def)

text \<open>
  C10: \<open>is_command_present\<close>, \<open>get_command_parametars\<close> and \<open>data\<close> return the
  parser as they received it, for every argument. A query for a name that is not in the
  table creates no entry for it: the name is still absent afterwards and
  \<open>is_command_present\<close> still answers false.
\<close>

theorem queries_leave_index_unchanged:
  "snd (is_command_present p name) = p \<and>
   snd (get_command_parametars p name) = p \<and>
   snd (data p) = p \<and>
   (table p name = None \<longrightarrow>
      table (snd (get_command_parametars p name)) name = None \<and>
      table (snd (is_command_present p name)) name = None \<and>
      table (snd (data p)) name = None \<and>
      fst (is_command_present (snd (get_command_parametars p name)) name) = False)"
  by (auto simp: get_command_parametars_def is_command_present_def data_def umap_count_def
      split: option.splits)

theorem queries_leave_index_unchanged_witness:
  "table new_parser ''TRY'' = None \<and>
   snd (get_command_parametars new_parser ''TRY'') = new_parser \<and>
   fst (is_command_present (snd (get_command_parametars new_parser ''TRY'')) ''TRY'') = False"
  using queries_leave_index_unchanged [of new_parser "''TRY''"]
  by (simp add: new_parser_def get_command_parametars_def is_command_present_def
      umap_count_def empty_vec_def)

end
